theory Spec2Isabelle
  imports Main
begin

section \<open>microUrllib.parse: percent-encoding and percent-decoding\<close>

text \<open>
  A shallow embedding of \<^verbatim>\<open>src/microUrllib/parse.py\<close>.

  \<^item> A Python \<^verbatim>\<open>bytes\<close> object is a list of \<^typ>\<open>char\<close> (an Isabelle character is
    one byte, \<open>of_char\<close> reads its value in \<open>0..255\<close>).
  \<^item> A Python \<^verbatim>\<open>str\<close> is a list of code points, each a \<^typ>\<open>nat\<close>
    (\<^verbatim>\<open>ord(c)\<close> is the element itself, \<^verbatim>\<open>chr(b)\<close> of a byte is \<open>of_char b\<close>).
  \<^item> An exception is the \<open>Inl\<close> side of a sum.
\<close>

subsection \<open>Values and exceptions\<close>

type_synonym bytes = "char list"
type_synonym str = "nat list"

text \<open>The arguments the functions probe with \<^verbatim>\<open>isinstance\<close>; \<open>PyNone\<close> stands for an
  object that is neither \<^verbatim>\<open>str\<close> nor \<^verbatim>\<open>bytes\<close>.\<close>

datatype pyobj = Str str | Bytes bytes | PyNone

datatype error = TypeError | AttributeError | UnicodeEncodeError | UnicodeDecodeError | LookupError

text \<open>An ASCII literal read as a \<^verbatim>\<open>str\<close>.\<close>

definition ascii :: "string \<Rightarrow> str" where
  "ascii cs = map of_char cs"

subsection \<open>\<^verbatim>\<open>split_on_non_ascii\<close>\<close>

text \<open>
  The \<^verbatim>\<open>for c in s\<close> loop, with its two mutable lists \<^verbatim>\<open>result\<close> and
  \<^verbatim>\<open>current\<close> passed along. \<^verbatim>\<open>0 <= ord(c)\<close> always holds of a code point.
\<close>

fun split_loop :: "str \<Rightarrow> str list \<Rightarrow> str \<Rightarrow> str list \<times> str" where
  "split_loop [] result current = (result, current)"
| "split_loop (c # s) result current =
     (if c \<le> 127 then split_loop s result (current @ [c])
      else split_loop s ((if current \<noteq> [] then result @ [current] else result) @ [[c]]) [])"

definition split_on_non_ascii :: "str \<Rightarrow> str list" where
  "split_on_non_ascii s =
     (case split_loop s [] [] of
        (result, current) \<Rightarrow> if current \<noteq> [] then result @ [current] else result)"

text \<open>The vocabulary of the properties of the split.\<close>

definition ascii_run :: "str \<Rightarrow> bool" where
  "ascii_run e \<longleftrightarrow> e \<noteq> [] \<and> list_all (\<lambda>c. c \<le> 127) e"

definition non_ascii_char :: "str \<Rightarrow> bool" where
  "non_ascii_char e \<longleftrightarrow> (case e of [c] \<Rightarrow> 127 < c | _ \<Rightarrow> False)"

text \<open>No two neighbours are both ASCII runs: every ASCII run is maximal.\<close>

fun runs_maximal :: "str list \<Rightarrow> bool" where
  "runs_maximal (a # b # r) = (\<not> (ascii_run a \<and> ascii_run b) \<and> runs_maximal (b # r))"
| "runs_maximal _ = True"

subsection \<open>The runtime's codecs\<close>

text \<open>
  \<^verbatim>\<open>str.encode\<close> and \<^verbatim>\<open>bytes.decode\<close> belong to the Python runtime, not to the
  module. Where the module fixes the codec (\<^verbatim>\<open>string.encode("utf-8")\<close>,
  \<^verbatim>\<open>bs.decode()\<close>, \<^verbatim>\<open>safe.encode("ascii", "ignore")\<close>) the codec is written out
  below; where the caller chooses it (\<^verbatim>\<open>quote\<close>, \<^verbatim>\<open>unquote\<close>) the functions take
  the runtime's codec as a parameter, applied to the encoding name and the error policy.
\<close>

type_synonym encoder = "string \<Rightarrow> string \<Rightarrow> str \<Rightarrow> error + bytes"
type_synonym decoder = "string \<Rightarrow> string \<Rightarrow> bytes \<Rightarrow> error + str"

text \<open>What an error handler does with the rest of the output once a fault is met.\<close>

definition on_fault :: "error \<Rightarrow> string \<Rightarrow> 'a list \<Rightarrow> (error + 'a list) \<Rightarrow> error + 'a list" where
  "on_fault e errors subst rest =
     (if errors = ''strict'' then Inl e
      else if errors = ''replace'' then map_sum id (\<lambda>r. subst @ r) rest
      else if errors = ''ignore'' then rest
      else Inl LookupError)"

text \<open>UTF-8 of one code point; a surrogate, or a number no \<^verbatim>\<open>str\<close> can hold, has none.\<close>

definition utf8_encode_cp :: "nat \<Rightarrow> bytes option" where
  "utf8_encode_cp c =
     (if c < 0x80 then Some [char_of c]
      else if c < 0x800 then Some [char_of (0xC0 + c div 64), char_of (0x80 + c mod 64)]
      else if 0xD800 \<le> c \<and> c \<le> 0xDFFF then None
      else if c < 0x10000 then
        Some [char_of (0xE0 + c div 4096), char_of (0x80 + c div 64 mod 64), char_of (0x80 + c mod 64)]
      else if c < 0x110000 then
        Some [char_of (0xF0 + c div 262144), char_of (0x80 + c div 4096 mod 64),
              char_of (0x80 + c div 64 mod 64), char_of (0x80 + c mod 64)]
      else None)"

fun utf8_encode :: "string \<Rightarrow> str \<Rightarrow> error + bytes" where
  "utf8_encode errors [] = Inr []"
| "utf8_encode errors (c # s) =
     (case utf8_encode_cp c of
        Some bs \<Rightarrow> map_sum id (\<lambda>r. bs @ r) (utf8_encode errors s)
      | None \<Rightarrow> on_fault UnicodeEncodeError errors ''?'' (utf8_encode errors s))"

text \<open>
  UTF-8 decoding. \<open>lead_info\<close> gives, for a lead byte, the number of bytes that must
  follow, the range allowed for the first of them, and the lead's payload;
  \<open>take_conts\<close> reads the following bytes and says how many of them were well formed,
  so that a fault covers the lead and the well-formed bytes after it.
\<close>

definition lead_info :: "nat \<Rightarrow> (nat \<times> nat \<times> nat \<times> nat) option" where
  "lead_info b =
     (if 0xC2 \<le> b \<and> b \<le> 0xDF then Some (1, 0x80, 0xBF, b - 0xC0)
      else if b = 0xE0 then Some (2, 0xA0, 0xBF, 0)
      else if b = 0xED then Some (2, 0x80, 0x9F, 13)
      else if 0xE1 \<le> b \<and> b \<le> 0xEF then Some (2, 0x80, 0xBF, b - 0xE0)
      else if b = 0xF0 then Some (3, 0x90, 0xBF, 0)
      else if 0xF1 \<le> b \<and> b \<le> 0xF3 then Some (3, 0x80, 0xBF, b - 0xF0)
      else if b = 0xF4 then Some (3, 0x80, 0x8F, 4)
      else None)"

fun take_conts :: "nat \<Rightarrow> nat \<Rightarrow> nat \<Rightarrow> nat \<Rightarrow> nat list \<Rightarrow> nat option \<times> nat" where
  "take_conts 0 lo hi acc bs = (Some acc, 0)"
| "take_conts (Suc n) lo hi acc [] = (None, 0)"
| "take_conts (Suc n) lo hi acc (c # bs) =
     (if lo \<le> c \<and> c \<le> hi then
        (case take_conts n 0x80 0xBF (acc * 64 + (c - 0x80)) bs of (r, k) \<Rightarrow> (r, Suc k))
      else (None, 0))"

fun utf8_decode_loop :: "string \<Rightarrow> nat list \<Rightarrow> error + str" where
  "utf8_decode_loop errors [] = Inr []"
| "utf8_decode_loop errors (b # bs) =
     (if b < 0x80 then map_sum id (\<lambda>r. b # r) (utf8_decode_loop errors bs)
      else
        (case lead_info b of
           None \<Rightarrow> on_fault UnicodeDecodeError errors [0xFFFD] (utf8_decode_loop errors bs)
         | Some (n, lo, hi, acc) \<Rightarrow>
             (case take_conts n lo hi acc bs of
                (Some cp, k) \<Rightarrow> map_sum id (\<lambda>r. cp # r) (utf8_decode_loop errors (drop k bs))
              | (None, k) \<Rightarrow>
                  on_fault UnicodeDecodeError errors [0xFFFD] (utf8_decode_loop errors (drop k bs)))))"

definition utf8_decode :: "string \<Rightarrow> bytes \<Rightarrow> error + str" where
  "utf8_decode errors bs = utf8_decode_loop errors (map of_char bs)"

text \<open>\<^verbatim>\<open>safe.encode("ascii", "ignore")\<close>: the characters ASCII cannot encode are left out.\<close>

definition ascii_encode_ignore :: "str \<Rightarrow> bytes" where
  "ascii_encode_ignore s = map char_of (filter (\<lambda>c. c < 128) s)"

text \<open>
  A codec registry that knows UTF-8 only, to run \<^verbatim>\<open>quote\<close> and \<^verbatim>\<open>unquote\<close> on
  concrete inputs; every other encoding name is unknown to it.
\<close>

definition py_encode :: encoder where
  "py_encode encoding errors s =
     (if encoding = ''utf-8'' then utf8_encode errors s else Inl LookupError)"

definition py_decode :: decoder where
  "py_decode encoding errors bs =
     (if encoding = ''utf-8'' then utf8_decode errors bs else Inl LookupError)"

subsection \<open>Module constants\<close>

definition MAX_CACHE_SIZE :: nat where
  "MAX_CACHE_SIZE = 20"

definition ALWAYS_SAFE :: "char set" where
  "ALWAYS_SAFE = set (''ABCDEFGHIJKLMNOPQRSTUVWXYZ'' @ ''abcdefghijklmnopqrstuvwxyz'' @ ''0123456789'' @ ''_.-'')"

text \<open>\<^verbatim>\<open>bytes(_ALWAYS_SAFE)\<close> lists the set in the set's own order; its only use is as the
  set of bytes that \<^verbatim>\<open>rstrip\<close> removes.\<close>

definition ALWAYS_SAFE_BYTES :: bytes where
  "ALWAYS_SAFE_BYTES = ''ABCDEFGHIJKLMNOPQRSTUVWXYZ'' @ ''abcdefghijklmnopqrstuvwxyz'' @ ''0123456789'' @ ''_.-''"

definition hexdig :: string where
  "hexdig = ''0123456789ABCDEFabcdef''"

text \<open>\<^verbatim>\<open>int(s, 16)\<close> on a string of hexadecimal digits; \<open>None\<close> is its \<^verbatim>\<open>ValueError\<close>.\<close>

definition hex_value :: "char \<Rightarrow> nat option" where
  "hex_value c =
     (let n = of_char c :: nat in
        if 48 \<le> n \<and> n \<le> 57 then Some (n - 48)
        else if 65 \<le> n \<and> n \<le> 70 then Some (n - 55)
        else if 97 \<le> n \<and> n \<le> 102 then Some (n - 87)
        else None)"

fun int16 :: "string \<Rightarrow> nat \<Rightarrow> nat option" where
  "int16 [] acc = Some acc"
| "int16 (c # cs) acc = (case hex_value c of None \<Rightarrow> None | Some d \<Rightarrow> int16 cs (16 * acc + d))"

text \<open>A dict built from its items in order: a later item replaces an earlier one.\<close>

definition dict_of :: "('k \<times> 'v) list \<Rightarrow> ('k \<rightharpoonup> 'v)" where
  "dict_of items = fold (\<lambda>(k, v) m. m(k \<mapsto> v)) items Map.empty"

text \<open>\<^verbatim>\<open>{(a + b).encode(): bytes([int(a + b, 16)]) for a in _hexdig for b in _hexdig}\<close>\<close>

definition hextobyte_items :: "(bytes \<times> bytes) list" where
  "hextobyte_items =
     concat (map (\<lambda>a. concat (map (\<lambda>b.
        (case int16 [a, b] 0 of Some n \<Rightarrow> [([a, b], [char_of n])] | None \<Rightarrow> [])) hexdig)) hexdig)"

definition hextobyte :: "bytes \<rightharpoonup> bytes" where
  "hextobyte = dict_of hextobyte_items"

subsection \<open>\<^verbatim>\<open>unquote_to_bytes\<close>\<close>

text \<open>\<^verbatim>\<open>bytes.split(sep)\<close> for a separator of one byte: never an empty list.\<close>

fun split_bytes :: "char \<Rightarrow> bytes \<Rightarrow> bytes list" where
  "split_bytes sep [] = [[]]"
| "split_bytes sep (c # cs) =
     (if c = sep then [] # split_bytes sep cs
      else (case split_bytes sep cs of [] \<Rightarrow> [[c]] | seg # segs \<Rightarrow> (c # seg) # segs))"

text \<open>The \<^verbatim>\<open>for item in bits[1:]\<close> loop; the list returned is what \<^verbatim>\<open>res\<close> gains.\<close>

fun unquote_items :: "bytes list \<Rightarrow> bytes list" where
  "unquote_items [] = []"
| "unquote_items (item # items) =
     (case hextobyte (take 2 item) of
        Some v \<Rightarrow> v # drop 2 item # unquote_items items
      | None \<Rightarrow> ''%'' # item # unquote_items items)"

definition unquote_bytes :: "bytes \<Rightarrow> bytes" where
  "unquote_bytes string =
     (case split_bytes CHR ''%'' string of
        [] \<Rightarrow> string
      | [b0] \<Rightarrow> string
      | b0 # items \<Rightarrow> concat (b0 # unquote_items items))"

definition unquote_to_bytes :: "pyobj \<Rightarrow> error + bytes" where
  "unquote_to_bytes string =
     (case string of
        PyNone \<Rightarrow> Inl AttributeError
      | Str s \<Rightarrow>
          if s = [] then Inr []
          else (case utf8_encode ''strict'' s of Inl e \<Rightarrow> Inl e | Inr bs \<Rightarrow> Inr (unquote_bytes bs))
      | Bytes bs \<Rightarrow> if bs = [] then Inr [] else Inr (unquote_bytes bs))"

subsection \<open>\<^verbatim>\<open>unquote\<close>\<close>

text \<open>\<^verbatim>\<open>unquote_to_bytes(bits[i]).decode(encoding, errors)\<close>\<close>

definition decode_bit :: "decoder \<Rightarrow> string \<Rightarrow> string \<Rightarrow> str \<Rightarrow> error + str" where
  "decode_bit dec encoding errors b0 =
     (case unquote_to_bytes (Str b0) of Inl e \<Rightarrow> Inl e | Inr bs \<Rightarrow> dec encoding errors bs)"

text \<open>
  \<^verbatim>\<open>for i in range(0, len(bits), 2)\<close>: each round takes \<^verbatim>\<open>bits[i]\<close> and, when there is
  one, \<^verbatim>\<open>bits[i + 1]\<close>; the first exception ends the loop.
\<close>

fun unquote_loop :: "decoder \<Rightarrow> string \<Rightarrow> string \<Rightarrow> str list \<Rightarrow> error + str" where
  "unquote_loop dec encoding errors [] = Inr []"
| "unquote_loop dec encoding errors [b0] = decode_bit dec encoding errors b0"
| "unquote_loop dec encoding errors (b0 # b1 # bits) =
     (case decode_bit dec encoding errors b0 of
        Inl e \<Rightarrow> Inl e
      | Inr t \<Rightarrow> map_sum id (\<lambda>r. t @ b1 @ r) (unquote_loop dec encoding errors bits))"

definition unquote :: "decoder \<Rightarrow> pyobj \<Rightarrow> string option \<Rightarrow> string option \<Rightarrow> error + str" where
  "unquote dec string encoding errors =
     (case string of
        Str s \<Rightarrow>
          if 37 \<notin> set s then Inr s
          else unquote_loop dec
                 (case encoding of None \<Rightarrow> ''utf-8'' | Some e \<Rightarrow> e)
                 (case errors of None \<Rightarrow> ''replace'' | Some e \<Rightarrow> e)
                 (split_on_non_ascii s)
      | _ \<Rightarrow> Inl TypeError)"

subsection \<open>The class \<^verbatim>\<open>Quoter\<close>\<close>

record Quoter =
  safe :: "char set"
  cache :: "char \<rightharpoonup> str"

text \<open>\<^verbatim>\<open>Quoter(safe)\<close>\<close>

definition Quoter_init :: "bytes \<Rightarrow> Quoter" where
  "Quoter_init sf = \<lparr>safe = ALWAYS_SAFE \<union> set sf, cache = Map.empty\<rparr>"

text \<open>The format specification \<^verbatim>\<open>{:02X}\<close>: the number in base 16 with the digits
  \<^verbatim>\<open>0-9A-F\<close>, padded with zeros on the left to a width of two.\<close>

definition upper_digit :: "nat \<Rightarrow> char" where
  "upper_digit d = (if d < 10 then char_of (48 + d) else char_of (55 + d))"

fun to_hex_upper :: "nat \<Rightarrow> string" where
  "to_hex_upper n =
     (if n < 16 then [upper_digit n] else to_hex_upper (n div 16) @ [upper_digit (n mod 16)])"

definition format_02X :: "nat \<Rightarrow> string" where
  "format_02X n = (let ds = to_hex_upper n in replicate (2 - length ds) CHR ''0'' @ ds)"

text \<open>\<^verbatim>\<open>Quoter.get\<close>: the value and the \<^verbatim>\<open>Quoter\<close> with its cache as the call leaves it.\<close>

definition Quoter_get :: "Quoter \<Rightarrow> char \<Rightarrow> str \<times> Quoter" where
  "Quoter_get q b =
     (case cache q b of
        Some r \<Rightarrow> (r, q)
      | None \<Rightarrow>
          (let res = (if b \<in> safe q then [of_char b] else 37 # ascii (format_02X (of_char b)))
           in (res, q\<lparr>cache := (cache q)(b \<mapsto> res)\<rparr>)))"

subsection \<open>The module's state\<close>

text \<open>
  \<^verbatim>\<open>_safe_quoters\<close> maps a normalised safe set to a \<^verbatim>\<open>Quoter\<close> object. The objects
  live in \<open>heap\<close>, in the order of their construction, and the dict holds their indices:
  constructing a \<^verbatim>\<open>Quoter\<close> lengthens \<open>heap\<close>, and using one again leaves the index
  where it was.
\<close>

record state =
  safe_quoters :: "bytes \<rightharpoonup> nat"
  heap :: "Quoter list"

definition init_state :: state where
  "init_state = \<lparr>safe_quoters = Map.empty, heap = []\<rparr>"

definition clear_cache :: "state \<Rightarrow> state" where
  "clear_cache s = s\<lparr>safe_quoters := Map.empty\<rparr>"

subsection \<open>\<^verbatim>\<open>quote_from_bytes\<close> and \<^verbatim>\<open>quote\<close>\<close>

text \<open>The \<^verbatim>\<open>safe\<close> argument, a \<^verbatim>\<open>str\<close> or a \<^verbatim>\<open>bytes\<close> object, and its normal form.\<close>

datatype safe_arg = SafeStr str | SafeBytes bytes

definition normalize_safe :: "safe_arg \<Rightarrow> bytes" where
  "normalize_safe sf =
     (case sf of
        SafeStr t \<Rightarrow> ascii_encode_ignore t
      | SafeBytes bs \<Rightarrow> filter (\<lambda>c. of_char c < (128 :: nat)) bs)"

text \<open>\<^verbatim>\<open>bytes.rstrip(chars)\<close>\<close>

definition rstrip :: "bytes \<Rightarrow> bytes \<Rightarrow> bytes" where
  "rstrip chars bs = rev (dropWhile (\<lambda>b. b \<in> set chars) (rev bs))"

text \<open>The \<^verbatim>\<open>for char in bs\<close> loop.\<close>

fun quote_loop :: "Quoter \<Rightarrow> bytes \<Rightarrow> str \<Rightarrow> str \<times> Quoter" where
  "quote_loop q [] res = (res, q)"
| "quote_loop q (char # bs) res =
     (case Quoter_get q char of (r, q') \<Rightarrow> quote_loop q' bs (res @ r))"

text \<open>The \<^verbatim>\<open>try\<close> around the dict: the index of the \<^verbatim>\<open>Quoter\<close> and the state after it.\<close>

definition get_quoter :: "state \<Rightarrow> bytes \<Rightarrow> nat \<times> state" where
  "get_quoter s sf =
     (case safe_quoters s sf of
        Some a \<Rightarrow> (a, s)
      | None \<Rightarrow>
          (length (heap s),
           s\<lparr>safe_quoters := (safe_quoters s)(sf \<mapsto> length (heap s)),
             heap := heap s @ [Quoter_init sf]\<rparr>))"

definition quote_from_bytes :: "state \<Rightarrow> pyobj \<Rightarrow> safe_arg \<Rightarrow> (error + str) \<times> state" where
  "quote_from_bytes s bs0 sf0 =
     (case bs0 of
        Bytes bs \<Rightarrow>
          if bs = [] then (Inr [], s)
          else
            (let sf = normalize_safe sf0 in
               if rstrip (ALWAYS_SAFE_BYTES @ sf) bs = [] then (utf8_decode ''strict'' bs, s)
               else
                 (case get_quoter s sf of
                    (a, s1) \<Rightarrow>
                      (case quote_loop (heap s1 ! a) bs [] of
                         (res, q') \<Rightarrow> (Inr res, s1\<lparr>heap := (heap s1)[a := q']\<rparr>))))
      | _ \<Rightarrow> (Inl TypeError, s))"

definition quote ::
  "encoder \<Rightarrow> state \<Rightarrow> pyobj \<Rightarrow> safe_arg \<Rightarrow> string option \<Rightarrow> string option \<Rightarrow> (error + str) \<times> state"
where
  "quote enc s string sf encoding errors =
     (case string of
        Str t \<Rightarrow>
          if t = [] then (Inr t, s)
          else
            (case enc (case encoding of None \<Rightarrow> ''utf-8'' | Some e \<Rightarrow> e)
                      (case errors of None \<Rightarrow> ''strict'' | Some e \<Rightarrow> e) t of
               Inl e \<Rightarrow> (Inl e, s)
             | Inr bs \<Rightarrow> quote_from_bytes s (Bytes bs) sf)
      | _ \<Rightarrow>
          if encoding \<noteq> None then (Inl TypeError, s)
          else if errors \<noteq> None then (Inl TypeError, s)
          else quote_from_bytes s string sf)"

subsection \<open>Sequences of calls\<close>

datatype call =
    Quote pyobj safe_arg "string option" "string option"
  | QuoteFromBytes pyobj safe_arg

definition exec_call :: "encoder \<Rightarrow> state \<Rightarrow> call \<Rightarrow> state" where
  "exec_call enc s c =
     (case c of
        Quote x sf encoding errors \<Rightarrow> snd (quote enc s x sf encoding errors)
      | QuoteFromBytes x sf \<Rightarrow> snd (quote_from_bytes s x sf))"

definition run_calls :: "encoder \<Rightarrow> state \<Rightarrow> call list \<Rightarrow> state" where
  "run_calls enc s cs = foldl (exec_call enc) s cs"

subsection \<open>The vocabulary of the properties\<close>

text \<open>The Effective Safe Set of a call: the always-safe bytes and the normalised \<^verbatim>\<open>safe\<close>.\<close>

definition effective_safe :: "safe_arg \<Rightarrow> char set" where
  "effective_safe sf = ALWAYS_SAFE \<union> set (normalize_safe sf)"

text \<open>The two uppercase hexadecimal digits of a byte, the high one first.\<close>

definition hex_pair :: "char \<Rightarrow> string" where
  "hex_pair b = [''0123456789ABCDEF'' ! (of_char b div 16), ''0123456789ABCDEF'' ! (of_char b mod 16)]"

text \<open>What a byte must be rendered as: itself when safe, else \<^verbatim>\<open>%XX\<close>.\<close>

definition rendering :: "char set \<Rightarrow> char \<Rightarrow> str" where
  "rendering S b = (if b \<in> S then [of_char b] else ascii (CHR ''%'' # hex_pair b))"

text \<open>What a segment after a \<^verbatim>\<open>%\<close> must decode to.\<close>

definition segment_decode :: "bytes \<Rightarrow> bytes" where
  "segment_decode seg =
     (case seg of
        a # b # rest \<Rightarrow>
          (case (hex_value a, hex_value b) of
             (Some x, Some y) \<Rightarrow> char_of (16 * x + y) # rest
           | _ \<Rightarrow> CHR ''%'' # seg)
      | _ \<Rightarrow> CHR ''%'' # seg)"

definition unescape :: "bytes \<Rightarrow> bytes" where
  "unescape bs =
     (case split_bytes CHR ''%'' bs of
        [] \<Rightarrow> []
      | first # segs \<Rightarrow> first @ concat (map segment_decode segs))"

text \<open>
  The state is well formed when every key of \<^verbatim>\<open>_safe_quoters\<close> refers to a constructed
  \<^verbatim>\<open>Quoter\<close> whose safe set is the always-safe set joined with the key, and whose cache
  holds, for each byte it has met, that byte's rendering.
\<close>

definition quoter_ok :: "bytes \<Rightarrow> Quoter \<Rightarrow> bool" where
  "quoter_ok k q \<longleftrightarrow>
     safe q = ALWAYS_SAFE \<union> set k \<and> (\<forall>b r. cache q b = Some r \<longrightarrow> r = rendering (safe q) b)"

definition cache_inv :: "state \<Rightarrow> bool" where
  "cache_inv s \<longleftrightarrow>
     (\<forall>k a. safe_quoters s k = Some a \<longrightarrow> a < length (heap s) \<and> quoter_ok k (heap s ! a))"

text \<open>
  The key under which a call consults \<^verbatim>\<open>_safe_quoters\<close>, if it gets that far: its input
  is a non-empty byte sequence with a byte outside the Effective Safe Set.
\<close>

definition lookup_key :: "pyobj \<Rightarrow> safe_arg \<Rightarrow> bytes option" where
  "lookup_key x sf =
     (case x of
        Bytes bs \<Rightarrow>
          if list_ex (\<lambda>b. b \<notin> effective_safe sf) bs then Some (normalize_safe sf) else None
      | _ \<Rightarrow> None)"

definition call_key :: "encoder \<Rightarrow> call \<Rightarrow> bytes option" where
  "call_key enc c =
     (case c of
        QuoteFromBytes x sf \<Rightarrow> lookup_key x sf
      | Quote x sf encoding errors \<Rightarrow>
          (case x of
             Str t \<Rightarrow>
               if t = [] then None
               else (case enc (case encoding of None \<Rightarrow> ''utf-8'' | Some e \<Rightarrow> e)
                              (case errors of None \<Rightarrow> ''strict'' | Some e \<Rightarrow> e) t of
                       Inl e \<Rightarrow> None
                     | Inr bs \<Rightarrow> lookup_key (Bytes bs) sf)
           | _ \<Rightarrow> if encoding = None \<and> errors = None then lookup_key x sf else None))"

text \<open>The normalised safe set a call is made with.\<close>

definition call_safe :: "call \<Rightarrow> bytes" where
  "call_safe c = (case c of Quote x sf encoding errors \<Rightarrow> normalize_safe sf | QuoteFromBytes x sf \<Rightarrow> normalize_safe sf)"

section \<open>Properties\<close>

subsection \<open>The segmenter\<close>

lemma non_ascii_not_run: "non_ascii_char e \<Longrightarrow> \<not> ascii_run e"
  by (auto simp: non_ascii_char_def ascii_run_def split: list.splits)

lemma runs_maximal_snoc:
  "runs_maximal (xs @ [y]) \<longleftrightarrow>
     runs_maximal xs \<and> (xs = [] \<or> \<not> (ascii_run (last xs) \<and> ascii_run y))"
  by (induction xs rule: runs_maximal.induct) auto

lemma split_loop_concat:
  "split_loop s result current = (r, c) \<Longrightarrow> concat r @ c = concat result @ current @ s"
  by (induction s result current rule: split_loop.induct) (auto split: if_splits)

lemma split_loop_elems:
  "split_loop s result current = (r, c) \<Longrightarrow>
   \<forall>e\<in>set result. ascii_run e \<or> non_ascii_char e \<Longrightarrow> list_all (\<lambda>x. x \<le> 127) current \<Longrightarrow>
   (\<forall>e\<in>set r. ascii_run e \<or> non_ascii_char e) \<and> list_all (\<lambda>x. x \<le> 127) c"
proof (induction s result current rule: split_loop.induct)
  case (1 result current)
  then show ?case by simp
next
  case (2 x s result current)
  show ?case
  proof (cases "x \<le> 127")
    case True
    with 2 show ?thesis by simp
  next
    case False
    then have nx: "non_ascii_char [x]" by (simp add: non_ascii_char_def)
    have cr: "current \<noteq> [] \<Longrightarrow> ascii_run current"
      using "2.prems"(3) by (simp add: ascii_run_def)
    from False "2.prems"(1)
    have eq: "split_loop s ((if current \<noteq> [] then result @ [current] else result) @ [[x]]) [] = (r, c)"
      by simp
    show ?thesis
      by (rule "2.IH"(2) [OF False eq]) (use nx cr "2.prems"(2) in auto)
  qed
qed

lemma split_loop_maximal:
  "split_loop s result current = (r, c) \<Longrightarrow>
   runs_maximal result \<Longrightarrow> result = [] \<or> non_ascii_char (last result) \<Longrightarrow>
   runs_maximal r \<and> (r = [] \<or> non_ascii_char (last r))"
proof (induction s result current rule: split_loop.induct)
  case (1 result current)
  then show ?case by simp
next
  case (2 x s result current)
  show ?case
  proof (cases "x \<le> 127")
    case True
    with 2 show ?thesis by simp
  next
    case False
    then have nx: "non_ascii_char [x]" by (simp add: non_ascii_char_def)
    let ?res = "(if current \<noteq> [] then result @ [current] else result) @ [[x]]"
    from False "2.prems"(1) have eq: "split_loop s ?res [] = (r, c)"
      by simp
    have m1: "runs_maximal (if current \<noteq> [] then result @ [current] else result)"
      using "2.prems"(2,3) by (auto simp: runs_maximal_snoc dest: non_ascii_not_run)
    have m2: "runs_maximal ?res"
      unfolding runs_maximal_snoc using m1 nx by (auto dest: non_ascii_not_run)
    show ?thesis
      by (rule "2.IH"(2) [OF False eq m2]) (use nx in simp)
  qed
qed

lemma split_loop_head:
  "split_loop s result current = (r, c) \<Longrightarrow> result = e # es \<Longrightarrow> \<exists>rs. r = e # rs"
  by (induction s result current arbitrary: es rule: split_loop.induct) (auto split: if_splits)

text \<open>
  C10. For every string \<open>s\<close>, the list \<^verbatim>\<open>split_on_non_ascii(s)\<close> concatenates back to
  \<open>s\<close>, holds no empty string, and each element is an ASCII run or one character above
  127; no two ASCII runs are neighbours, so every run is maximal; and when \<open>s\<close> begins with
  a character above 127 the first element is that character, not an empty run.
\<close>

theorem split_on_non_ascii_partition:
  "concat (split_on_non_ascii s) = s \<and>
   [] \<notin> set (split_on_non_ascii s) \<and>
   (\<forall>e\<in>set (split_on_non_ascii s). ascii_run e \<or> non_ascii_char e) \<and>
   runs_maximal (split_on_non_ascii s) \<and>
   (\<forall>c t. s = c # t \<and> 127 < c \<longrightarrow> (\<exists>rs. split_on_non_ascii s = [c] # rs))"
proof -
  obtain r c where rc: "split_loop s [] [] = (r, c)"
    by (cases "split_loop s [] []")
  have sp: "split_on_non_ascii s = (if c \<noteq> [] then r @ [c] else r)"
    by (simp add: split_on_non_ascii_def rc)
  have cc: "concat r @ c = s"
    using split_loop_concat [OF rc] by simp
  have el: "(\<forall>e\<in>set r. ascii_run e \<or> non_ascii_char e) \<and> list_all (\<lambda>x. x \<le> 127) c"
    using split_loop_elems [OF rc] by simp
  have mx: "runs_maximal r \<and> (r = [] \<or> non_ascii_char (last r))"
    using split_loop_maximal [OF rc] by simp
  have p1: "concat (split_on_non_ascii s) = s"
    using cc by (auto simp: sp)
  have p3: "\<forall>e\<in>set (split_on_non_ascii s). ascii_run e \<or> non_ascii_char e"
    using el by (auto simp: sp ascii_run_def)
  have p2: "[] \<notin> set (split_on_non_ascii s)"
    using p3 by (auto simp: ascii_run_def non_ascii_char_def)
  have p4: "runs_maximal (split_on_non_ascii s)"
    using mx by (auto simp: sp runs_maximal_snoc dest: non_ascii_not_run)
  have p5: "\<exists>rs. split_on_non_ascii s = [x] # rs" if "s = x # t" "127 < x" for x t
  proof -
    from that rc have "split_loop t [[x]] [] = (r, c)" by simp
    from split_loop_head [OF this] obtain rs where "r = [x] # rs" by auto
    then show ?thesis by (simp add: sp)
  qed
  from p1 p2 p3 p4 p5 show ?thesis by blast
qed

theorem split_on_non_ascii_partition_witness:
  "split_on_non_ascii [233, 37, 50, 48] = [[233], [37, 50, 48]] \<and>
   concat (split_on_non_ascii [233, 37, 50, 48]) = [233, 37, 50, 48] \<and>
   runs_maximal (split_on_non_ascii [233, 37, 50, 48]) \<and>
   (\<exists>rs. split_on_non_ascii [233, 37, 50, 48] = [233] # rs)"
  using split_on_non_ascii_partition [of "[233, 37, 50, 48]"]
  by (simp add: split_on_non_ascii_def)

subsection \<open>The hex-escape table\<close>

lemma dict_of_fold:
  "\<forall>(k, v)\<in>set items. v = g k \<Longrightarrow>
   fold (\<lambda>(k, v) m. m(k \<mapsto> v)) items m k =
     (if k \<in> fst ` set items then Some (g k) else m k)"
  by (induction items arbitrary: m) (auto simp: rev_image_eqI)

lemma dict_of_lookup:
  "\<forall>(k, v)\<in>set items. v = g k \<Longrightarrow>
   dict_of items k = (if k \<in> fst ` set items then Some (g k) else None)"
  unfolding dict_of_def by (simp add: dict_of_fold)

lemma hexdig_hex_value: "c \<in> set hexdig \<Longrightarrow> hex_value c \<noteq> None"
  by (auto simp: hexdig_def hex_value_def)

lemma hex_value_hexdig: "hex_value c = Some d \<Longrightarrow> c \<in> set hexdig"
proof -
  assume h: "hex_value c = Some d"
  define n :: nat where "n = of_char c"
  from h have "(48 \<le> n \<and> n \<le> 57) \<or> (65 \<le> n \<and> n \<le> 70) \<or> (97 \<le> n \<and> n \<le> 102)"
    by (auto simp: hex_value_def n_def Let_def split: if_splits)
  then have "n \<in> set ([48..<58] @ [65..<71] @ [97..<103])"
    by (simp only: set_append set_upt Un_iff atLeastLessThan_iff) arith
  also have "[48..<58] @ [65..<71] @ [97..<103] =
      [48, 49, 50, 51, 52, 53, 54, 55, 56, 57, 65, 66, 67, 68, 69, 70, 97, 98, 99, 100, 101, 102 :: nat]"
    by (simp add: upt_rec_numeral)
  also have "set \<dots> = of_char ` set hexdig"
    by (simp add: hexdig_def)
  finally have "of_char c \<in> (of_char ` set hexdig :: nat set)"
    by (simp add: n_def)
  then show "c \<in> set hexdig"
    by (simp only: inj_image_mem_iff [OF inj_of_char])
qed


lemma hextobyte_items_mem:
  "(k, v) \<in> set hextobyte_items \<longleftrightarrow>
     (\<exists>a b x y. hex_value a = Some x \<and> hex_value b = Some y \<and>
        k = [a, b] \<and> v = [char_of (16 * x + y)])"
proof -
  have one: "(k, v) \<in> set (case int16 [a, b] 0 of Some n \<Rightarrow> [([a, b], [char_of n])] | None \<Rightarrow> []) \<longleftrightarrow>
      (\<exists>x y. hex_value a = Some x \<and> hex_value b = Some y \<and> k = [a, b] \<and> v = [char_of (16 * x + y)])"
    for a b
    by (cases "hex_value a"; cases "hex_value b") simp_all
  have "(k, v) \<in> set hextobyte_items \<longleftrightarrow>
     (\<exists>a\<in>set hexdig. \<exists>b\<in>set hexdig.
        (k, v) \<in> set (case int16 [a, b] 0 of Some n \<Rightarrow> [([a, b], [char_of n])] | None \<Rightarrow> []))"
    unfolding hextobyte_items_def by (simp del: int16.simps)
  also have "\<dots> \<longleftrightarrow> (\<exists>a b x y. hex_value a = Some x \<and> hex_value b = Some y \<and>
        k = [a, b] \<and> v = [char_of (16 * x + y)])"
    unfolding one using hex_value_hexdig by blast
  finally show ?thesis by simp
qed

lemma hextobyte_lookup:
  "hextobyte k =
     (case k of
        [a, b] \<Rightarrow>
          (case (hex_value a, hex_value b) of
             (Some x, Some y) \<Rightarrow> Some [char_of (16 * x + y)]
           | _ \<Rightarrow> None)
      | _ \<Rightarrow> None)"
proof -
  let ?g = "\<lambda>k. case k of
        [a, b] \<Rightarrow> (case (hex_value a, hex_value b) of (Some x, Some y) \<Rightarrow> [char_of (16 * x + y)] | _ \<Rightarrow> [])
      | _ \<Rightarrow> []"
  have val: "v = ?g k" if "(k, v) \<in> set hextobyte_items" for k v
  proof -
    from that obtain a b x y where "hex_value a = Some x" "hex_value b = Some y"
      "k = [a, b]" "v = [char_of (16 * x + y)]"
      unfolding hextobyte_items_mem by blast
    then show ?thesis by simp
  qed
  have vals: "\<forall>(k, v)\<in>set hextobyte_items. v = ?g k"
    using val by blast
  have keys: "k \<in> fst ` set hextobyte_items \<longleftrightarrow>
      (\<exists>a b x y. k = [a, b] \<and> hex_value a = Some x \<and> hex_value b = Some y)"
  proof -
    have "k \<in> fst ` set hextobyte_items \<longleftrightarrow> (\<exists>v. (k, v) \<in> set hextobyte_items)"
      by force
    also have "\<dots> \<longleftrightarrow> (\<exists>a b x y. k = [a, b] \<and> hex_value a = Some x \<and> hex_value b = Some y)"
      unfolding hextobyte_items_mem by blast
    finally show ?thesis .
  qed
  show ?thesis
    unfolding hextobyte_def dict_of_lookup [OF vals] keys
    by (auto split: list.splits option.splits)
qed

subsection \<open>The byte unescaper\<close>

lemma split_bytes_nonempty: "split_bytes sep bs \<noteq> []"
  by (induction bs) (auto split: list.splits)

lemma split_bytes_join:
  "split_bytes sep bs = first # segs \<Longrightarrow> bs = first @ concat (map ((#) sep) segs)"
proof (induction bs arbitrary: first segs)
  case Nil
  then show ?case by simp
next
  case (Cons c cs)
  obtain f s where fs: "split_bytes sep cs = f # s"
    using split_bytes_nonempty [of sep cs] by (cases "split_bytes sep cs") auto
  have cs: "cs = f @ concat (map ((#) sep) s)"
    by (rule Cons.IH [OF fs])
  show ?case
  proof (cases "c = sep")
    case True
    with Cons.prems fs have "first = []" "segs = f # s" by simp_all
    with True show ?thesis by (simp add: cs [symmetric])
  next
    case False
    with Cons.prems fs have "first = c # f" "segs = s" by simp_all
    then show ?thesis by (simp add: cs [symmetric])
  qed
qed

lemma utf8_encode_ascii:
  "\<forall>c\<in>set cs. of_char c < (128 :: nat) \<Longrightarrow> utf8_encode errors (ascii cs) = Inr cs"
  by (induction cs) (auto simp: ascii_def utf8_encode_cp_def)

lemma split_bytes_no_sep:
  "seg \<in> set (split_bytes sep bs) \<Longrightarrow> sep \<notin> set seg"
  by (induction bs arbitrary: seg) (auto split: if_splits list.splits)

lemma unquote_item:
  "(case hextobyte (take 2 item) of Some v \<Rightarrow> v @ drop 2 item | None \<Rightarrow> ''%'' @ item)
     = segment_decode item"
  unfolding hextobyte_lookup segment_decode_def
  by (cases item rule: list.exhaust [case_names Nil Cons]; cases "tl item")
     (auto split: option.splits)

lemma concat_unquote_items:
  "concat (unquote_items items) = concat (map segment_decode items)"
  by (induction items) (auto simp: unquote_item [symmetric] split: option.splits)

lemma unquote_bytes_unescape: "unquote_bytes bs = unescape bs"
proof (cases "split_bytes CHR ''%'' bs")
  case Nil
  then show ?thesis by (simp add: split_bytes_nonempty)
next
  case (Cons first segs)
  show ?thesis
  proof (cases segs)
    case Nil
    with Cons split_bytes_join [OF Cons] show ?thesis
      by (simp add: unquote_bytes_def unescape_def)
  next
    case (Cons seg segs')
    with \<open>split_bytes CHR ''%'' bs = first # segs\<close> show ?thesis
      by (simp add: unquote_bytes_def unescape_def concat_unquote_items del: unquote_items.simps)
  qed
qed

lemma unescape_Nil: "unescape [] = []"
  by (simp add: unescape_def)

text \<open>
  C4. \<^verbatim>\<open>unquote_to_bytes\<close> splits its input at every \<^verbatim>\<open>%\<close> byte and returns the first
  segment unchanged, followed, for each later segment, by its decoded byte and the rest of
  the segment when its first two bytes are hexadecimal digits of either case, and by a
  literal \<^verbatim>\<open>%\<close> and the whole segment otherwise; on a byte sequence it never raises, on
  a \<^verbatim>\<open>str\<close> it does the same to the UTF-8 bytes; and
  \<^verbatim>\<open>unquote_to_bytes(b"100%gg") == b"100%gg"\<close>.
\<close>

theorem unquote_to_bytes_segments:
  "(\<exists>first segs.
      split_bytes CHR ''%'' bs = first # segs \<and>
      bs = first @ concat (map ((#) CHR ''%'') segs) \<and>
      (\<forall>seg\<in>set (first # segs). CHR ''%'' \<notin> set seg) \<and>
      unquote_to_bytes (Bytes bs) = Inr (first @ concat (map segment_decode segs))) \<and>
   (utf8_encode ''strict'' t = Inr bs \<longrightarrow> unquote_to_bytes (Str t) = unquote_to_bytes (Bytes bs)) \<and>
   unquote_to_bytes (Bytes ''100%gg'') = Inr ''100%gg''"
proof -
  obtain first segs where sp: "split_bytes CHR ''%'' bs = first # segs"
    using split_bytes_nonempty [of "CHR ''%''" bs] by (cases "split_bytes CHR ''%'' bs") auto
  have nosep: "\<forall>seg\<in>set (first # segs). CHR ''%'' \<notin> set seg"
    using split_bytes_no_sep [of _ "CHR ''%''" bs] unfolding sp by blast
  have res: "unquote_to_bytes (Bytes bs) = Inr (unescape bs)" for bs
    by (simp add: unquote_to_bytes_def unquote_bytes_unescape unescape_Nil)
  have p1: "unquote_to_bytes (Bytes bs) = Inr (first @ concat (map segment_decode segs))"
    unfolding res by (simp add: unescape_def sp)
  have p2: "unquote_to_bytes (Str t) = unquote_to_bytes (Bytes bs)" if "utf8_encode ''strict'' t = Inr bs"
    using that by (cases t) (auto simp: unquote_to_bytes_def unquote_bytes_unescape unescape_Nil)
  have p3: "unquote_to_bytes (Bytes ''100%gg'') = Inr ''100%gg''"
    unfolding res by (simp add: unescape_def segment_decode_def hex_value_def)
  from sp split_bytes_join [OF sp] nosep p1 p2 p3 show ?thesis by blast
qed

theorem unquote_to_bytes_segments_witness:
  "utf8_encode ''strict'' (ascii ''%41%zz%4'') = Inr ''%41%zz%4'' \<and>
   split_bytes CHR ''%'' ''%41%zz%4'' = ['''', ''41'', ''zz'', ''4''] \<and>
   unquote_to_bytes (Str (ascii ''%41%zz%4'')) = Inr ''A%zz%4''"
  using unquote_to_bytes_segments [of "''%41%zz%4''" "ascii ''%41%zz%4''"]
  by (simp add: utf8_encode_ascii segment_decode_def hex_value_def char_of_eq_iff)

subsection \<open>Empty input and usage errors\<close>

text \<open>
  C9. On empty input each public operation returns the empty value of its output type:
  \<^verbatim>\<open>quote("") == ""\<close>, \<^verbatim>\<open>quote_from_bytes(b"") == ""\<close>, \<^verbatim>\<open>unquote("") == ""\<close> and
  \<^verbatim>\<open>unquote_to_bytes(b"") == b""\<close>, whatever the other arguments and the state are, and
  the two that are given the state return it as it was.
\<close>

theorem empty_input_law:
  "quote enc s (Str []) sf encoding errors = (Inr [], s) \<and>
   quote enc s (Bytes []) sf None None = (Inr [], s) \<and>
   quote_from_bytes s (Bytes []) sf = (Inr [], s) \<and>
   unquote dec (Str []) encoding errors = Inr [] \<and>
   unquote_to_bytes (Bytes []) = Inr [] \<and>
   unquote_to_bytes (Str []) = Inr []"
  by (simp add: quote_def quote_from_bytes_def unquote_def unquote_to_bytes_def)

theorem empty_input_law_witness:
  "quote py_encode init_state (Str []) (SafeStr (ascii ''/'')) None None = (Inr [], init_state) \<and>
   quote py_encode init_state (Bytes []) (SafeStr (ascii ''/'')) None None = (Inr [], init_state) \<and>
   quote_from_bytes init_state (Bytes []) (SafeStr (ascii ''/'')) = (Inr [], init_state) \<and>
   unquote py_decode (Str []) None None = Inr [] \<and>
   unquote_to_bytes (Bytes []) = Inr [] \<and>
   unquote_to_bytes (Str []) = Inr []"
  using empty_input_law [of py_encode init_state "SafeStr (ascii ''/'')" None None py_decode]
  by simp

text \<open>
  C7. \<^verbatim>\<open>quote\<close> raises \<^verbatim>\<open>TypeError\<close> whenever \<^verbatim>\<open>encoding\<close> or \<^verbatim>\<open>errors\<close> is given
  with a \<^verbatim>\<open>bytes\<close> input, and \<^verbatim>\<open>quote_from_bytes\<close> raises \<^verbatim>\<open>TypeError\<close> whenever its
  input is not a byte sequence; in both cases there is no output and the state, the Quoter
  Cache with it, is as it was.
\<close>

theorem usage_errors:
  "(encoding \<noteq> None \<or> errors \<noteq> None \<longrightarrow>
      quote enc s (Bytes bs) sf encoding errors = (Inl TypeError, s)) \<and>
   ((\<forall>bs. x \<noteq> Bytes bs) \<longrightarrow> quote_from_bytes s x sf = (Inl TypeError, s))"
  by (cases x) (auto simp: quote_def quote_from_bytes_def)

theorem usage_errors_witness:
  "quote py_encode init_state (Bytes ''a b'') (SafeStr (ascii ''/'')) (Some ''utf-8'') None
     = (Inl TypeError, init_state) \<and>
   quote py_encode init_state (Bytes ''a b'') (SafeStr (ascii ''/'')) None (Some ''strict'')
     = (Inl TypeError, init_state) \<and>
   quote_from_bytes init_state (Str (ascii ''a b'')) (SafeStr (ascii ''/'')) = (Inl TypeError, init_state) \<and>
   quote_from_bytes init_state PyNone (SafeStr (ascii ''/'')) = (Inl TypeError, init_state)"
  using usage_errors [of "Some ''utf-8''" None py_encode init_state "''a b''" "SafeStr (ascii ''/'')" "Str (ascii ''a b'')"]
    usage_errors [of None "Some ''strict''" py_encode init_state "''a b''" "SafeStr (ascii ''/'')" PyNone]
  by simp

subsection \<open>The \<^verbatim>\<open>Quoter\<close> and the state\<close>

declare to_hex_upper.simps [simp del]

lemma upper_digit_nth: "d < 16 \<Longrightarrow> upper_digit d = ''0123456789ABCDEF'' ! d"
proof -
  assume "d < 16"
  then have "d = 0 \<or> d = 1 \<or> d = 2 \<or> d = 3 \<or> d = 4 \<or> d = 5 \<or> d = 6 \<or> d = 7 \<or>
      d = 8 \<or> d = 9 \<or> d = 10 \<or> d = 11 \<or> d = 12 \<or> d = 13 \<or> d = 14 \<or> d = 15"
    by arith
  then show ?thesis
    by (auto simp: upper_digit_def char_of_eq_iff)
qed

lemma to_hex_upper_byte:
  "n < 256 \<Longrightarrow> to_hex_upper n =
     (if n < 16 then [upper_digit n] else [upper_digit (n div 16), upper_digit (n mod 16)])"
proof -
  assume n: "n < 256"
  then have d: "n div 16 < 16" by simp
  show ?thesis
    using d by (subst to_hex_upper.simps, subst to_hex_upper.simps) simp
qed

lemma format_02X_byte: "format_02X (of_char b) = hex_pair b"
proof -
  have lt: "(of_char b :: nat) < 256" by simp
  have d: "(of_char b :: nat) div 16 < 16" "(of_char b :: nat) mod 16 < 16"
    using lt by arith+
  show ?thesis
  proof (cases "(of_char b :: nat) < 16")
    case True
    then have z: "(of_char b :: nat) div 16 = 0" "(of_char b :: nat) mod 16 = of_char b"
      by simp_all
    from True show ?thesis
      unfolding format_02X_def Let_def to_hex_upper_byte [OF lt] hex_pair_def z
      by (simp add: upper_digit_nth)
  next
    case False
    then show ?thesis
      unfolding format_02X_def Let_def to_hex_upper_byte [OF lt] hex_pair_def
      by (simp add: upper_digit_nth d)
  qed
qed

lemma Quoter_get_miss:
  "(if b \<in> S then [of_char b] else 37 # ascii (format_02X (of_char b))) = rendering S b"
  by (simp add: rendering_def format_02X_byte ascii_def)

lemma Quoter_get_value:
  "\<forall>r. cache q b = Some r \<longrightarrow> r = rendering (safe q) b \<Longrightarrow>
   fst (Quoter_get q b) = rendering (safe q) b"
  unfolding Quoter_get_def Let_def Quoter_get_miss
  by (cases "cache q b") simp_all

lemma Quoter_get_safe: "safe (snd (Quoter_get q b)) = safe q"
  by (auto simp: Quoter_get_def Let_def split: option.splits)

lemma Quoter_get_ok: "quoter_ok k q \<Longrightarrow> quoter_ok k (snd (Quoter_get q b))"
  unfolding Quoter_get_def Let_def Quoter_get_miss quoter_ok_def
  by (cases "cache q b") auto

lemma quote_loop_value:
  "quoter_ok k q \<Longrightarrow>
   fst (quote_loop q bs res) = res @ concat (map (rendering (safe q)) bs)"
proof (induction bs arbitrary: q res)
  case Nil
  then show ?case by simp
next
  case (Cons b bs)
  obtain r q' where g: "Quoter_get q b = (r, q')" by (cases "Quoter_get q b")
  have "\<forall>r. cache q b = Some r \<longrightarrow> r = rendering (safe q) b"
    using Cons.prems unfolding quoter_ok_def by blast
  from Quoter_get_value [OF this] g have r: "r = rendering (safe q) b"
    by simp
  have ok: "quoter_ok k q'" and sf: "safe q' = safe q"
    using Quoter_get_ok [OF Cons.prems, of b] Quoter_get_safe [of q b] g by simp_all
  show ?case
    using Cons.IH [OF ok] by (simp add: g r sf)
qed

lemma quote_loop_ok: "quoter_ok k q \<Longrightarrow> quoter_ok k (snd (quote_loop q bs res))"
proof (induction bs arbitrary: q res)
  case Nil
  then show ?case by simp
next
  case (Cons b bs)
  obtain r q' where g: "Quoter_get q b = (r, q')" by (cases "Quoter_get q b")
  have ok: "quoter_ok k q'"
    using Quoter_get_ok [OF Cons.prems, of b] g by simp
  show ?case
    using Cons.IH [OF ok] by (simp add: g)
qed


lemma rstrip_empty: "rstrip chars bs = [] \<longleftrightarrow> set bs \<subseteq> set chars"
  by (auto simp: rstrip_def dropWhile_eq_Nil_conv)

lemma ALWAYS_SAFE_BYTES_set: "set ALWAYS_SAFE_BYTES = ALWAYS_SAFE"
  by (simp add: ALWAYS_SAFE_BYTES_def ALWAYS_SAFE_def)

lemma ALWAYS_SAFE_ascii: "b \<in> ALWAYS_SAFE \<Longrightarrow> of_char b < (128 :: nat)"
  by (auto simp: ALWAYS_SAFE_def)

lemma normalize_safe_ascii: "b \<in> set (normalize_safe sf) \<Longrightarrow> of_char b < (128 :: nat)"
  by (cases sf) (auto simp: normalize_safe_def ascii_encode_ignore_def)

lemma effective_safe_ascii: "b \<in> effective_safe sf \<Longrightarrow> of_char b < (128 :: nat)"
  by (auto simp: effective_safe_def dest: ALWAYS_SAFE_ascii normalize_safe_ascii)

lemma utf8_decode_ascii:
  "\<forall>b\<in>set bs. of_char b < (128 :: nat) \<Longrightarrow> utf8_decode errors bs = Inr (map of_char bs)"
  by (induction bs) (auto simp: utf8_decode_def)

lemma fast_path_iff:
  "rstrip (ALWAYS_SAFE_BYTES @ normalize_safe sf) bs = [] \<longleftrightarrow> set bs \<subseteq> effective_safe sf"
  by (simp add: rstrip_empty effective_safe_def ALWAYS_SAFE_BYTES_set)

lemma rendering_safe: "set bs \<subseteq> S \<Longrightarrow> concat (map (rendering S) bs) = map of_char bs"
  by (induction bs) (auto simp: rendering_def)

lemma get_quoter_inv:
  assumes "cache_inv s" and "get_quoter s k = (a, s1)"
  shows "cache_inv s1 \<and> a < length (heap s1) \<and> quoter_ok k (heap s1 ! a)"
proof (cases "safe_quoters s k")
  case None
  with assms(2) have s1: "s1 = s\<lparr>safe_quoters := (safe_quoters s)(k \<mapsto> length (heap s)),
      heap := heap s @ [Quoter_init k]\<rparr>" and a: "a = length (heap s)"
    by (auto simp: get_quoter_def)
  have new: "quoter_ok k (Quoter_init k)"
    by (simp add: quoter_ok_def Quoter_init_def)
  have "a' < length (heap s1) \<and> quoter_ok k' (heap s1 ! a')"
    if "safe_quoters s1 k' = Some a'" for k' a'
  proof (cases "k' = k")
    case True
    with that new show ?thesis by (auto simp: s1)
  next
    case False
    with that have "safe_quoters s k' = Some a'" by (simp add: s1)
    with assms(1) have "a' < length (heap s)" "quoter_ok k' (heap s ! a')"
      unfolding cache_inv_def by blast+
    then show ?thesis by (simp add: s1 nth_append)
  qed
  then have "cache_inv s1"
    by (simp add: cache_inv_def)
  with new show ?thesis by (simp add: s1 a)
next
  case (Some a')
  with assms show ?thesis by (auto simp: get_quoter_def cache_inv_def)
qed

lemma heap_update_inv:
  assumes "cache_inv s" and "\<forall>k. quoter_ok k (heap s ! a) \<longrightarrow> quoter_ok k q'"
  shows "cache_inv (s\<lparr>heap := (heap s)[a := q']\<rparr>)"
proof -
  have "a' < length (heap s) \<and> quoter_ok k ((heap s)[a := q'] ! a')"
    if "safe_quoters s k = Some a'" for k a'
  proof -
    from assms(1) that have lt: "a' < length (heap s)" and ok: "quoter_ok k (heap s ! a')"
      unfolding cache_inv_def by blast+
    show ?thesis
    proof (cases "a' = a")
      case True
      with lt ok assms(2) show ?thesis by simp
    next
      case False
      with lt ok show ?thesis by simp
    qed
  qed
  then show ?thesis by (simp add: cache_inv_def)
qed

subsection \<open>\<^verbatim>\<open>quote_from_bytes\<close> on a byte sequence\<close>

lemma lookup_key_Bytes:
  "lookup_key (Bytes bs) sf = (if set bs \<subseteq> effective_safe sf then None else Some (normalize_safe sf))"
  by (auto simp: lookup_key_def list_ex_iff)

text \<open>What \<^verbatim>\<open>quote_from_bytes\<close> does once its input has a byte that is not safe.\<close>

lemma quote_from_bytes_slow:
  assumes "\<not> set bs \<subseteq> effective_safe sf"
  shows "quote_from_bytes s (Bytes bs) sf =
     (case get_quoter s (normalize_safe sf) of
        (a, s1) \<Rightarrow>
          (case quote_loop (heap s1 ! a) bs [] of
             (res, q') \<Rightarrow> (Inr res, s1\<lparr>heap := (heap s1)[a := q']\<rparr>)))"
proof -
  from assms have "bs \<noteq> []" by auto
  with assms show ?thesis
    by (simp add: quote_from_bytes_def fast_path_iff Let_def)
qed

lemma quote_from_bytes_fast:
  assumes "set bs \<subseteq> effective_safe sf"
  shows "quote_from_bytes s (Bytes bs) sf = (Inr (map of_char bs), s)"
proof (cases "bs = []")
  case True
  then show ?thesis by (simp add: quote_from_bytes_def)
next
  case False
  have "\<forall>b\<in>set bs. of_char b < (128 :: nat)"
    using assms effective_safe_ascii by blast
  with False assms show ?thesis
    by (simp add: quote_from_bytes_def fast_path_iff Let_def utf8_decode_ascii)
qed

lemma quote_from_bytes_value:
  assumes "cache_inv s"
  shows "fst (quote_from_bytes s (Bytes bs) sf) = Inr (concat (map (rendering (effective_safe sf)) bs))"
proof (cases "set bs \<subseteq> effective_safe sf")
  case True
  then show ?thesis
    by (simp add: quote_from_bytes_fast rendering_safe)
next
  case False
  obtain a s1 where g: "get_quoter s (normalize_safe sf) = (a, s1)"
    by (cases "get_quoter s (normalize_safe sf)")
  from get_quoter_inv [OF assms g] have ok: "quoter_ok (normalize_safe sf) (heap s1 ! a)"
    by simp
  then have sf: "safe (heap s1 ! a) = effective_safe sf"
    by (simp add: quoter_ok_def effective_safe_def)
  obtain res q' where l: "quote_loop (heap s1 ! a) bs [] = (res, q')"
    by (cases "quote_loop (heap s1 ! a) bs []")
  from quote_loop_value [OF ok, of bs "[]"] l
  have "res = concat (map (rendering (effective_safe sf)) bs)"
    by (simp add: sf)
  then show ?thesis
    by (simp add: quote_from_bytes_slow [OF False] g l)
qed

lemma quote_from_bytes_inv:
  assumes "cache_inv s"
  shows "cache_inv (snd (quote_from_bytes s x sf))"
proof (cases x)
  case (Bytes bs)
  show ?thesis
  proof (cases "set bs \<subseteq> effective_safe sf")
    case True
    with assms show ?thesis by (simp add: Bytes quote_from_bytes_fast)
  next
    case False
    obtain a s1 where g: "get_quoter s (normalize_safe sf) = (a, s1)"
      by (cases "get_quoter s (normalize_safe sf)")
    obtain res q' where l: "quote_loop (heap s1 ! a) bs [] = (res, q')"
      by (cases "quote_loop (heap s1 ! a) bs []")
    from get_quoter_inv [OF assms g] have inv1: "cache_inv s1" by simp
    have "\<forall>k. quoter_ok k (heap s1 ! a) \<longrightarrow> quoter_ok k q'"
      using quote_loop_ok [of _ "heap s1 ! a" bs "[]"] l by simp
    from heap_update_inv [OF inv1 this] show ?thesis
      by (simp add: Bytes quote_from_bytes_slow [OF False] g l)
  qed
qed (use assms in \<open>simp_all add: quote_from_bytes_def\<close>)

lemma quote_from_bytes_quoters:
  "safe_quoters (snd (quote_from_bytes s x sf)) =
     (case lookup_key x sf of
        None \<Rightarrow> safe_quoters s
      | Some k \<Rightarrow>
          (case safe_quoters s k of
             Some a \<Rightarrow> safe_quoters s
           | None \<Rightarrow> (safe_quoters s)(k \<mapsto> length (heap s))))"
proof (cases x)
  case (Bytes bs)
  show ?thesis
  proof (cases "set bs \<subseteq> effective_safe sf")
    case True
    then show ?thesis by (simp add: Bytes quote_from_bytes_fast lookup_key_Bytes)
  next
    case False
    then show ?thesis
      by (simp add: Bytes quote_from_bytes_slow [OF False] lookup_key_Bytes get_quoter_def
          split: option.splits prod.splits)
  qed
qed (simp_all add: quote_from_bytes_def lookup_key_def)

lemma quote_from_bytes_heap_length:
  "length (heap (snd (quote_from_bytes s x sf))) =
     (case lookup_key x sf of
        None \<Rightarrow> length (heap s)
      | Some k \<Rightarrow>
          (case safe_quoters s k of
             Some a \<Rightarrow> length (heap s)
           | None \<Rightarrow> Suc (length (heap s))))"
proof (cases x)
  case (Bytes bs)
  show ?thesis
  proof (cases "set bs \<subseteq> effective_safe sf")
    case True
    then show ?thesis by (simp add: Bytes quote_from_bytes_fast lookup_key_Bytes)
  next
    case False
    then show ?thesis
      by (simp add: Bytes quote_from_bytes_slow [OF False] lookup_key_Bytes get_quoter_def
          split: option.splits prod.splits)
  qed
qed (simp_all add: quote_from_bytes_def lookup_key_def)

subsection \<open>Hexadecimal digits of a rendering\<close>

lemma upper_hex_digit:
  "d < 16 \<Longrightarrow>
     hex_value (''0123456789ABCDEF'' ! d) = Some d \<and>
     ''0123456789ABCDEF'' ! d \<in> set ''0123456789ABCDEF''"
proof -
  assume "d < 16"
  then have "d = 0 \<or> d = 1 \<or> d = 2 \<or> d = 3 \<or> d = 4 \<or> d = 5 \<or> d = 6 \<or> d = 7 \<or>
      d = 8 \<or> d = 9 \<or> d = 10 \<or> d = 11 \<or> d = 12 \<or> d = 13 \<or> d = 14 \<or> d = 15"
    by arith
  then show ?thesis
    by (auto simp: hex_value_def)
qed

lemma hex_pair_digits:
  "\<exists>h l x y. hex_pair b = [h, l] \<and>
     h \<in> set ''0123456789ABCDEF'' \<and> l \<in> set ''0123456789ABCDEF'' \<and>
     hex_value h = Some x \<and> hex_value l = Some y \<and> 16 * x + y = of_char b"
proof -
  have lt: "(of_char b :: nat) < 256" by simp
  then have d: "(of_char b :: nat) div 16 < 16" "(of_char b :: nat) mod 16 < 16"
    by arith+
  have "16 * ((of_char b :: nat) div 16) + of_char b mod 16 = of_char b"
    by simp
  with upper_hex_digit [OF d(1)] upper_hex_digit [OF d(2)] show ?thesis
    unfolding hex_pair_def by blast
qed

lemma upper_hex_ascii: "h \<in> set ''0123456789ABCDEF'' \<Longrightarrow> of_char h < (128 :: nat)"
  by auto

lemma upper_hex_not_percent: "hex_value h = Some x \<Longrightarrow> h \<noteq> CHR ''%''"
  by (auto simp: hex_value_def)

lemma rendering_ascii:
  assumes "c \<in> set (rendering (effective_safe sf) b)"
  shows "c < 128"
proof (cases "b \<in> effective_safe sf")
  case True
  with assms effective_safe_ascii [OF True] show ?thesis
    by (simp add: rendering_def)
next
  case False
  obtain h l where "hex_pair b = [h, l]" "h \<in> set ''0123456789ABCDEF''" "l \<in> set ''0123456789ABCDEF''"
    using hex_pair_digits [of b] by blast
  with False assms upper_hex_ascii [of h] upper_hex_ascii [of l] show ?thesis
    by (auto simp: rendering_def ascii_def)
qed

subsection \<open>What the encoder writes\<close>

lemma cache_inv_init: "cache_inv init_state"
  by (simp add: cache_inv_def init_state_def)

lemma normalize_safe_literal:
  "normalize_safe (SafeStr (ascii cs)) = filter (\<lambda>c. of_char c < (128 :: nat)) cs"
  by (induction cs) (auto simp: normalize_safe_def ascii_encode_ignore_def ascii_def)

lemma quote_value:
  assumes "cache_inv s"
  shows "fst (quote enc s (Bytes bs) sf None None) = Inr (concat (map (rendering (effective_safe sf)) bs))"
    and "t \<noteq> [] \<Longrightarrow>
      enc (case encoding of None \<Rightarrow> ''utf-8'' | Some e \<Rightarrow> e)
          (case errors of None \<Rightarrow> ''strict'' | Some e \<Rightarrow> e) t = Inr bs \<Longrightarrow>
      fst (quote enc s (Str t) sf encoding errors) = Inr (concat (map (rendering (effective_safe sf)) bs))"
  using quote_from_bytes_value [OF assms, of bs sf] by (simp_all add: quote_def)

text \<open>
  C3. Every byte of the input of \<^verbatim>\<open>quote_from_bytes\<close>, and of \<^verbatim>\<open>quote\<close> (for a
  \<^verbatim>\<open>str\<close>, every byte of its encoding), is rendered in its place: a byte of the
  Effective Safe Set as its single character, any other byte as three characters,
  \<^verbatim>\<open>%\<close> and two uppercase hexadecimal digits whose value is the byte.
\<close>

theorem quote_renders_each_byte:
  assumes "cache_inv s"
  shows
    "fst (quote_from_bytes s (Bytes bs) sf) = Inr (concat (map (rendering (effective_safe sf)) bs)) \<and>
     fst (quote enc s (Bytes bs) sf None None) = Inr (concat (map (rendering (effective_safe sf)) bs)) \<and>
     (t \<noteq> [] \<and> enc (case encoding of None \<Rightarrow> ''utf-8'' | Some e \<Rightarrow> e)
                   (case errors of None \<Rightarrow> ''strict'' | Some e \<Rightarrow> e) t = Inr bs \<longrightarrow>
        fst (quote enc s (Str t) sf encoding errors)
          = Inr (concat (map (rendering (effective_safe sf)) bs))) \<and>
     (\<forall>b. b \<in> effective_safe sf \<longrightarrow> rendering (effective_safe sf) b = [of_char b]) \<and>
     (\<forall>b. b \<notin> effective_safe sf \<longrightarrow>
        (\<exists>h l x y. rendering (effective_safe sf) b = [37, of_char h, of_char l] \<and>
           h \<in> set ''0123456789ABCDEF'' \<and> l \<in> set ''0123456789ABCDEF'' \<and>
           hex_value h = Some x \<and> hex_value l = Some y \<and> 16 * x + y = of_char b))"
proof -
  have esc: "\<exists>h l x y. rendering (effective_safe sf) b = [37, of_char h, of_char l] \<and>
           h \<in> set ''0123456789ABCDEF'' \<and> l \<in> set ''0123456789ABCDEF'' \<and>
           hex_value h = Some x \<and> hex_value l = Some y \<and> 16 * x + y = of_char b"
    if "b \<notin> effective_safe sf" for b
  proof -
    obtain h l x y where hp: "hex_pair b = [h, l]"
      and d: "h \<in> set ''0123456789ABCDEF''" "l \<in> set ''0123456789ABCDEF''"
        "hex_value h = Some x" "hex_value l = Some y" "16 * x + y = of_char b"
      using hex_pair_digits [of b] by blast
    from that have "rendering (effective_safe sf) b = [37, of_char h, of_char l]"
      by (simp add: rendering_def ascii_def hp)
    with d show ?thesis by blast
  qed
  have lit: "rendering (effective_safe sf) b = [of_char b]" if "b \<in> effective_safe sf" for b
    using that by (simp add: rendering_def)
  from quote_from_bytes_value [OF assms, of bs sf]
    quote_value(1) [OF assms, where enc = enc and bs = bs and sf = sf]
    quote_value(2) [OF assms, where enc = enc and bs = bs and sf = sf and t = t
      and encoding = encoding and errors = errors] lit esc
  show ?thesis by blast
qed

theorem quote_renders_each_byte_witness:
  "cache_inv init_state \<and>
   fst (quote_from_bytes init_state (Bytes ''abc def?'') (SafeStr (ascii ''/''))) = Inr (ascii ''abc%20def%3F'') \<and>
   fst (quote py_encode init_state (Str (ascii ''a/b c'')) (SafeStr (ascii ''/'')) None None)
     = Inr (ascii ''a/b%20c'')"
proof -
  let ?sf = "SafeStr (ascii ''/'')"
  have es: "effective_safe ?sf = ALWAYS_SAFE \<union> {CHR ''/''}"
    by (simp add: effective_safe_def normalize_safe_literal)
  have r1: "concat (map (rendering (effective_safe ?sf)) ''abc def?'') = ascii ''abc%20def%3F''"
    unfolding es by (simp add: rendering_def ALWAYS_SAFE_def hex_pair_def ascii_def)
  have r2: "concat (map (rendering (effective_safe ?sf)) ''a/b c'') = ascii ''a/b%20c''"
    unfolding es by (simp add: rendering_def ALWAYS_SAFE_def hex_pair_def ascii_def)
  have e: "ascii ''a/b c'' \<noteq> [] \<and>
      py_encode (case None of None \<Rightarrow> ''utf-8'' | Some e \<Rightarrow> e)
        (case None of None \<Rightarrow> ''strict'' | Some e \<Rightarrow> e) (ascii ''a/b c'') = Inr ''a/b c''"
    by (simp add: py_encode_def utf8_encode_ascii) (simp add: ascii_def)
  from quote_renders_each_byte [OF cache_inv_init, where bs = "''abc def?''" and sf = ?sf]
  have w1: "fst (quote_from_bytes init_state (Bytes ''abc def?'') ?sf) = Inr (ascii ''abc%20def%3F'')"
    unfolding r1 by (rule conjunct1)
  from quote_renders_each_byte [OF cache_inv_init, where bs = "''a/b c''" and sf = ?sf
      and enc = py_encode and t = "ascii ''a/b c''" and encoding = None and errors = None]
  have w2: "fst (quote py_encode init_state (Str (ascii ''a/b c'')) ?sf None None) = Inr (ascii ''a/b%20c'')"
    unfolding r2 using e by blast
  from cache_inv_init w1 w2 show ?thesis by blast
qed

text \<open>
  C5. The output of \<^verbatim>\<open>quote_from_bytes\<close> on a byte sequence holds code points below 128
  only, whatever the \<^verbatim>\<open>safe\<close> argument: of a \<^verbatim>\<open>str\<close> the normalisation keeps the
  characters ASCII can encode, of a \<^verbatim>\<open>bytes\<close> object the bytes below 128, so that a byte
  of 128 or more is never in the Effective Safe Set and is never rendered literally.
\<close>

theorem quote_from_bytes_ascii_output:
  assumes "cache_inv s"
  shows
    "(\<exists>t. fst (quote_from_bytes s (Bytes bs) sf) = Inr t \<and> (\<forall>c\<in>set t. c < 128)) \<and>
     set (normalize_safe (SafeStr u)) = char_of ` {c \<in> set u. c < 128} \<and>
     set (normalize_safe (SafeBytes v)) = {b \<in> set v. of_char b < (128 :: nat)} \<and>
     (\<forall>b. (128 :: nat) \<le> of_char b \<longrightarrow>
        b \<notin> effective_safe sf \<and> length (rendering (effective_safe sf) b) = 3)"
proof -
  have out: "\<forall>c\<in>set (concat (map (rendering (effective_safe sf)) bs)). c < 128"
    using rendering_ascii by auto
  have hi: "b \<notin> effective_safe sf \<and> length (rendering (effective_safe sf) b) = 3"
    if "(128 :: nat) \<le> of_char b" for b
  proof -
    from that effective_safe_ascii [of b sf] have "b \<notin> effective_safe sf" by auto
    then show ?thesis by (simp add: rendering_def ascii_def hex_pair_def)
  qed
  have n1: "set (normalize_safe (SafeStr u)) = char_of ` {c \<in> set u. c < 128}"
    by (auto simp: normalize_safe_def ascii_encode_ignore_def)
  have n2: "set (normalize_safe (SafeBytes v)) = {b \<in> set v. of_char b < (128 :: nat)}"
    by (auto simp: normalize_safe_def)
  from quote_from_bytes_value [OF assms, of bs sf] out hi n1 n2 show ?thesis
    by blast
qed

theorem quote_from_bytes_ascii_output_witness:
  "cache_inv init_state \<and>
   (\<exists>t. fst (quote_from_bytes init_state (Bytes [CHR 0xE9, CHR ''a'']) (SafeBytes [CHR 0xE9, CHR ''/''])) = Inr t \<and>
      (\<forall>c\<in>set t. c < 128)) \<and>
   CHR 0xE9 \<notin> effective_safe (SafeBytes [CHR 0xE9, CHR ''/'']) \<and>
   rendering (effective_safe (SafeBytes [CHR 0xE9, CHR ''/''])) (CHR 0xE9) = ascii ''%E9''"
proof -
  let ?sf = "SafeBytes [CHR 0xE9, CHR ''/'']"
  note t = quote_from_bytes_ascii_output [OF cache_inv_init, where bs = "[CHR 0xE9, CHR ''a'']"
      and sf = ?sf]
  have hi: "(128 :: nat) \<le> of_char (CHR 0xE9)" by simp
  from t have n: "CHR 0xE9 \<notin> effective_safe ?sf" using hi by blast
  then have r: "rendering (effective_safe ?sf) (CHR 0xE9) = ascii ''%E9''"
    by (simp add: rendering_def hex_pair_def)
  from t cache_inv_init n r show ?thesis by blast
qed

subsection \<open>Round trip\<close>

lemma unescape_literal:
  assumes "c \<noteq> CHR ''%''"
  shows "unescape (c # cs) = c # unescape cs"
proof -
  obtain f s where fs: "split_bytes CHR ''%'' cs = f # s"
    using split_bytes_nonempty [of "CHR ''%''" cs] by (cases "split_bytes CHR ''%'' cs") auto
  with assms show ?thesis by (simp add: unescape_def)
qed

lemma unescape_escape:
  assumes "hex_value h = Some x" and "hex_value l = Some y"
  shows "unescape (CHR ''%'' # h # l # cs) = char_of (16 * x + y) # unescape cs"
proof -
  obtain f s where fs: "split_bytes CHR ''%'' cs = f # s"
    using split_bytes_nonempty [of "CHR ''%''" cs] by (cases "split_bytes CHR ''%'' cs") auto
  from assms have "h \<noteq> CHR ''%''" "l \<noteq> CHR ''%''"
    by (auto dest: upper_hex_not_percent)
  with fs assms show ?thesis
    by (simp add: unescape_def segment_decode_def)
qed

lemma utf8_encode_below_128:
  "\<forall>c\<in>set t. c < 128 \<Longrightarrow> utf8_encode errors t = Inr (map char_of t)"
  by (induction t) (auto simp: utf8_encode_cp_def)

lemma unquote_to_bytes_Str:
  "unquote_to_bytes (Str t) =
     (case utf8_encode ''strict'' t of Inl e \<Rightarrow> Inl e | Inr bs \<Rightarrow> Inr (unescape bs))"
  by (cases t) (simp_all add: unquote_to_bytes_def unquote_bytes_unescape unescape_Nil
      cong: sum.case_cong)

lemma percent_not_always_safe: "CHR ''%'' \<notin> ALWAYS_SAFE"
  by (simp add: ALWAYS_SAFE_def)

lemma unescape_rendering:
  assumes "CHR ''%'' \<notin> S"
  shows "unescape (map char_of (concat (map (rendering S) bs))) = bs"
proof (induction bs)
  case Nil
  show ?case by (simp add: unescape_Nil)
next
  case (Cons b bs)
  show ?case
  proof (cases "b \<in> S")
    case True
    with assms have "b \<noteq> CHR ''%''" by auto
    with True Cons.IH show ?thesis
      by (simp add: rendering_def unescape_literal)
  next
    case False
    obtain h l x y where hp: "hex_pair b = [h, l]"
      and d: "hex_value h = Some x" "hex_value l = Some y" "16 * x + y = of_char b"
      using hex_pair_digits [of b] by blast
    have p: "char_of (37 :: nat) = CHR ''%''"
      by (simp add: char_of_eq_iff)
    have "char_of (16 * x + y) = b"
      by (simp add: d(3))
    with False Cons.IH show ?thesis
      by (simp add: rendering_def ascii_def hp p unescape_escape [OF d(1,2)])
  qed
qed

text \<open>
  C2. For every byte sequence \<open>b\<close> and every safe set without the \<^verbatim>\<open>%\<close> byte,
  \<^verbatim>\<open>quote_from_bytes(b, safe)\<close> returns a text, and \<^verbatim>\<open>unquote_to_bytes\<close> of that text
  is \<open>b\<close>.
\<close>

theorem quote_unquote_round_trip:
  assumes "cache_inv s" and "CHR ''%'' \<notin> set (normalize_safe sf)"
  shows "\<exists>t. fst (quote_from_bytes s (Bytes b) sf) = Inr t \<and> unquote_to_bytes (Str t) = Inr b"
proof -
  let ?t = "concat (map (rendering (effective_safe sf)) b)"
  have q: "fst (quote_from_bytes s (Bytes b) sf) = Inr ?t"
    by (rule quote_from_bytes_value [OF assms(1)])
  have "\<forall>c\<in>set ?t. c < 128"
    using rendering_ascii by auto
  then have enc: "utf8_encode ''strict'' ?t = Inr (map char_of ?t)"
    by (rule utf8_encode_below_128)
  have pct: "CHR ''%'' \<notin> effective_safe sf"
    using assms(2) percent_not_always_safe by (simp add: effective_safe_def)
  have un: "unescape (map char_of ?t) = b"
    by (rule unescape_rendering [OF pct])
  have "unquote_to_bytes (Str ?t) = Inr b"
    unfolding unquote_to_bytes_Str enc by (simp add: un)
  with q show ?thesis by blast
qed

theorem quote_unquote_round_trip_witness:
  "cache_inv init_state \<and> CHR ''%'' \<notin> set (normalize_safe (SafeStr (ascii ''/''))) \<and>
   (\<exists>t. fst (quote_from_bytes init_state (Bytes [CHR ''a'', CHR ''%'', CHR ''4'', CHR ''1'', CHR 0xE9, CHR ''/''])
              (SafeStr (ascii ''/''))) = Inr t \<and>
        unquote_to_bytes (Str t) = Inr [CHR ''a'', CHR ''%'', CHR ''4'', CHR ''1'', CHR 0xE9, CHR ''/''])"
proof -
  have p: "CHR ''%'' \<notin> set (normalize_safe (SafeStr (ascii ''/'')))"
    by (simp add: normalize_safe_literal)
  from quote_unquote_round_trip [OF cache_inv_init p] cache_inv_init p show ?thesis
    by blast
qed

subsection \<open>The Quoter Cache\<close>

lemma effective_safe_cong:
  "normalize_safe sf1 = normalize_safe sf2 \<Longrightarrow> effective_safe sf1 = effective_safe sf2"
  by (simp add: effective_safe_def)

lemma lookup_key_cong:
  "normalize_safe sf1 = normalize_safe sf2 \<Longrightarrow> lookup_key x sf1 = lookup_key x sf2"
  by (cases x) (simp_all add: lookup_key_def effective_safe_def)

lemma quote_from_bytes_stores:
  "lookup_key x sf = Some k \<Longrightarrow> safe_quoters (snd (quote_from_bytes s x sf)) k \<noteq> None"
  by (simp add: quote_from_bytes_quoters split: option.splits)

lemma cache_inv_clear: "cache_inv (clear_cache s)"
  by (simp add: cache_inv_def clear_cache_def)

lemma quote_inv: "cache_inv s \<Longrightarrow> cache_inv (snd (quote enc s x sf encoding errors))"
  using quote_from_bytes_inv [of s]
  by (cases x) (auto simp: quote_def split: sum.splits)

text \<open>Every state that calls and \<^verbatim>\<open>clear_cache\<close> lead to from the initial one is well formed.\<close>

lemma exec_call_inv: "cache_inv s \<Longrightarrow> cache_inv (exec_call enc s c)"
  by (cases c) (simp_all add: exec_call_def quote_inv quote_from_bytes_inv)

lemma run_calls_inv: "cache_inv s \<Longrightarrow> cache_inv (run_calls enc s cs)"
  unfolding run_calls_def
  by (induction cs arbitrary: s) (simp_all add: exec_call_inv)

text \<open>
  C6. Two calls of \<^verbatim>\<open>quote_from_bytes\<close> on the same bytes with safe sets that are equal
  after normalisation return the same output, and the second constructs no \<^verbatim>\<open>Quoter\<close>:
  it leaves \<^verbatim>\<open>_safe_quoters\<close> and the number of constructed objects as they were, and
  whenever it consults the cache (after a first call that did, whatever bytes the second
  is given) it finds the key there. The cache is well formed at the start, after
  \<^verbatim>\<open>clear_cache\<close> and after every call, so that after any sequence of calls each stored
  key \<open>k\<close> refers to a \<^verbatim>\<open>Quoter\<close> whose safe set is the always-safe set joined with
  \<open>k\<close>.
\<close>

theorem cache_consistency:
  assumes "cache_inv s" and "normalize_safe sf1 = normalize_safe sf2"
  shows
    "fst (quote_from_bytes (snd (quote_from_bytes s (Bytes bs) sf1)) (Bytes bs) sf2)
       = fst (quote_from_bytes s (Bytes bs) sf1) \<and>
     safe_quoters (snd (quote_from_bytes (snd (quote_from_bytes s (Bytes bs) sf1)) (Bytes bs) sf2))
       = safe_quoters (snd (quote_from_bytes s (Bytes bs) sf1)) \<and>
     length (heap (snd (quote_from_bytes (snd (quote_from_bytes s (Bytes bs) sf1)) (Bytes bs) sf2)))
       = length (heap (snd (quote_from_bytes s (Bytes bs) sf1))) \<and>
     (lookup_key (Bytes bs) sf1 \<noteq> None \<longrightarrow>
        safe_quoters (snd (quote_from_bytes s (Bytes bs) sf1)) (normalize_safe sf2) \<noteq> None \<and>
        safe_quoters (snd (quote_from_bytes (snd (quote_from_bytes s (Bytes bs) sf1)) (Bytes bs') sf2))
          = safe_quoters (snd (quote_from_bytes s (Bytes bs) sf1)) \<and>
        length (heap (snd (quote_from_bytes (snd (quote_from_bytes s (Bytes bs) sf1)) (Bytes bs') sf2)))
          = length (heap (snd (quote_from_bytes s (Bytes bs) sf1)))) \<and>
     cache_inv init_state \<and> cache_inv (clear_cache s) \<and>
     cache_inv (snd (quote_from_bytes s x sf1)) \<and>
     cache_inv (snd (quote enc s x sf1 encoding errors)) \<and>
     (\<forall>k a. safe_quoters (run_calls enc init_state cs) k = Some a \<longrightarrow>
        a < length (heap (run_calls enc init_state cs)) \<and>
        safe (heap (run_calls enc init_state cs) ! a) = ALWAYS_SAFE \<union> set k)"
proof -
  let ?s1 = "snd (quote_from_bytes s (Bytes bs) sf1)"
  have inv1: "cache_inv ?s1"
    by (rule quote_from_bytes_inv [OF assms(1)])
  have es: "effective_safe sf1 = effective_safe sf2"
    by (rule effective_safe_cong [OF assms(2)])
  have lk: "lookup_key y sf1 = lookup_key y sf2" for y
    by (rule lookup_key_cong [OF assms(2)])
  have out: "fst (quote_from_bytes ?s1 (Bytes bs) sf2) = fst (quote_from_bytes s (Bytes bs) sf1)"
    by (simp add: quote_from_bytes_value [OF inv1] quote_from_bytes_value [OF assms(1)] es)
  have stored: "safe_quoters ?s1 (normalize_safe sf2) \<noteq> None" if "lookup_key (Bytes bs) sf1 \<noteq> None"
  proof -
    from that have "lookup_key (Bytes bs) sf1 = Some (normalize_safe sf2)"
      by (simp add: lookup_key_Bytes assms(2) split: if_splits)
    then show ?thesis by (rule quote_from_bytes_stores)
  qed
  have same: "safe_quoters (snd (quote_from_bytes ?s1 (Bytes bs) sf2)) = safe_quoters ?s1 \<and>
      length (heap (snd (quote_from_bytes ?s1 (Bytes bs) sf2))) = length (heap ?s1)"
  proof (cases "lookup_key (Bytes bs) sf1")
    case None
    then show ?thesis
      by (simp add: quote_from_bytes_quoters [of ?s1] quote_from_bytes_heap_length [of ?s1] lk [symmetric])
  next
    case (Some k)
    then have k: "k = normalize_safe sf2"
      by (simp add: lookup_key_Bytes assms(2) split: if_splits)
    from Some stored obtain a where "safe_quoters ?s1 k = Some a"
      unfolding k by auto
    with Some show ?thesis
      by (simp add: quote_from_bytes_quoters [of ?s1] quote_from_bytes_heap_length [of ?s1] lk [symmetric])
  qed
  have other: "safe_quoters (snd (quote_from_bytes ?s1 (Bytes bs') sf2)) = safe_quoters ?s1 \<and>
      length (heap (snd (quote_from_bytes ?s1 (Bytes bs') sf2))) = length (heap ?s1)"
    if "lookup_key (Bytes bs) sf1 \<noteq> None"
  proof -
    from stored [OF that] obtain a where a: "safe_quoters ?s1 (normalize_safe sf2) = Some a"
      by auto
    have "lookup_key (Bytes bs') sf2 = None \<or> lookup_key (Bytes bs') sf2 = Some (normalize_safe sf2)"
      by (simp add: lookup_key_Bytes)
    with a show ?thesis
      by (auto simp: quote_from_bytes_quoters [of ?s1] quote_from_bytes_heap_length [of ?s1])
  qed
  have "cache_inv (run_calls enc init_state cs)"
    by (rule run_calls_inv [OF cache_inv_init])
  then have shape: "a < length (heap (run_calls enc init_state cs)) \<and>
      safe (heap (run_calls enc init_state cs) ! a) = ALWAYS_SAFE \<union> set k"
    if "safe_quoters (run_calls enc init_state cs) k = Some a" for k a
    using that unfolding cache_inv_def quoter_ok_def by blast
  from out same stored other cache_inv_init cache_inv_clear [of s]
    quote_from_bytes_inv [OF assms(1), of x sf1] quote_inv [OF assms(1), of enc x sf1 encoding errors]
    shape
  show ?thesis by blast
qed


theorem cache_consistency_witness:
  "cache_inv init_state \<and>
   normalize_safe (SafeStr (ascii ''/'')) = normalize_safe (SafeBytes [CHR ''/'', CHR 0xE9]) \<and>
   lookup_key (Bytes ''a b'') (SafeStr (ascii ''/'')) \<noteq> None \<and>
   fst (quote_from_bytes (snd (quote_from_bytes init_state (Bytes ''a b'') (SafeStr (ascii ''/''))))
          (Bytes ''a b'') (SafeBytes [CHR ''/'', CHR 0xE9]))
     = fst (quote_from_bytes init_state (Bytes ''a b'') (SafeStr (ascii ''/''))) \<and>
   safe_quoters (snd (quote_from_bytes init_state (Bytes ''a b'') (SafeStr (ascii ''/''))))
     (normalize_safe (SafeBytes [CHR ''/'', CHR 0xE9])) \<noteq> None \<and>
   length (heap (snd (quote_from_bytes (snd (quote_from_bytes init_state (Bytes ''a b'') (SafeStr (ascii ''/''))))
          (Bytes ''c d'') (SafeBytes [CHR ''/'', CHR 0xE9]))))
     = length (heap (snd (quote_from_bytes init_state (Bytes ''a b'') (SafeStr (ascii ''/'')))))"
proof -
  have n: "normalize_safe (SafeStr (ascii ''/'')) = normalize_safe (SafeBytes [CHR ''/'', CHR 0xE9])"
    by (simp add: normalize_safe_literal) (simp add: normalize_safe_def)
  have k: "lookup_key (Bytes ''a b'') (SafeStr (ascii ''/'')) \<noteq> None"
    by (simp add: lookup_key_Bytes effective_safe_def normalize_safe_literal ALWAYS_SAFE_def)
  note t = cache_consistency [OF cache_inv_init n, where bs = "''a b''" and bs' = "''c d''"]
  from t have o: "fst (quote_from_bytes (snd (quote_from_bytes init_state (Bytes ''a b'') (SafeStr (ascii ''/''))))
          (Bytes ''a b'') (SafeBytes [CHR ''/'', CHR 0xE9]))
     = fst (quote_from_bytes init_state (Bytes ''a b'') (SafeStr (ascii ''/'')))"
    by (rule conjunct1)
  from t k have r: "safe_quoters (snd (quote_from_bytes init_state (Bytes ''a b'') (SafeStr (ascii ''/''))))
     (normalize_safe (SafeBytes [CHR ''/'', CHR 0xE9])) \<noteq> None \<and>
   length (heap (snd (quote_from_bytes (snd (quote_from_bytes init_state (Bytes ''a b'') (SafeStr (ascii ''/''))))
          (Bytes ''c d'') (SafeBytes [CHR ''/'', CHR 0xE9]))))
     = length (heap (snd (quote_from_bytes init_state (Bytes ''a b'') (SafeStr (ascii ''/'')))))"
    by blast
  from cache_inv_init n k o r show ?thesis by blast
qed

subsection \<open>Sequences of calls and the size of the cache\<close>

lemma exec_call_quoters:
  "safe_quoters (exec_call enc s c) =
     (case call_key enc c of
        None \<Rightarrow> safe_quoters s
      | Some k \<Rightarrow>
          (case safe_quoters s k of
             Some a \<Rightarrow> safe_quoters s
           | None \<Rightarrow> (safe_quoters s)(k \<mapsto> length (heap s))))"
proof (cases c)
  case (QuoteFromBytes x sf)
  then show ?thesis
    by (simp add: exec_call_def call_key_def quote_from_bytes_quoters)
next
  case (Quote x sf encoding errors)
  show ?thesis
  proof (cases x)
    case (Str t)
    show ?thesis
    proof (cases "t = []")
      case True
      with Str Quote show ?thesis by (simp add: exec_call_def call_key_def quote_def)
    next
      case False
      with Str Quote show ?thesis
        by (simp add: exec_call_def call_key_def quote_def quote_from_bytes_quoters
            split: sum.splits)
    qed
  next
    case (Bytes bs)
    with Quote show ?thesis
      by (simp add: exec_call_def call_key_def quote_def quote_from_bytes_quoters)
  next
    case PyNone
    with Quote show ?thesis
      by (simp add: exec_call_def call_key_def quote_def quote_from_bytes_quoters)
  qed
qed

lemma exec_call_keeps: "safe_quoters s \<subseteq>\<^sub>m safe_quoters (exec_call enc s c)"
  unfolding exec_call_quoters
  by (auto simp: map_le_def split: option.splits)

lemma exec_call_dom:
  "dom (safe_quoters (exec_call enc s c)) = dom (safe_quoters s) \<union> set_option (call_key enc c)"
  unfolding exec_call_quoters
  by (auto split: option.splits)

lemma run_calls_keeps: "safe_quoters s \<subseteq>\<^sub>m safe_quoters (run_calls enc s cs)"
proof (induction cs arbitrary: s)
  case Nil
  show ?case by (simp add: run_calls_def)
next
  case (Cons c cs)
  have "safe_quoters s \<subseteq>\<^sub>m safe_quoters (exec_call enc s c)"
    by (rule exec_call_keeps)
  also have "\<dots> \<subseteq>\<^sub>m safe_quoters (run_calls enc (exec_call enc s c) cs)"
    by (rule Cons.IH)
  finally show ?case by (simp add: run_calls_def)
qed

lemma run_calls_dom:
  "dom (safe_quoters (run_calls enc s cs)) =
     dom (safe_quoters s) \<union> set (List.map_filter (call_key enc) cs)"
proof (induction cs arbitrary: s)
  case Nil
  show ?case by (simp add: run_calls_def List.map_filter_simps)
next
  case (Cons c cs)
  have "dom (safe_quoters (run_calls enc (exec_call enc s c) cs)) =
      dom (safe_quoters s) \<union> set_option (call_key enc c) \<union> set (List.map_filter (call_key enc) cs)"
    unfolding Cons.IH exec_call_dom ..
  then show ?case
    by (auto simp: run_calls_def List.map_filter_simps split: option.splits)
qed


text \<open>
  C8, as stated, fails: a call whose bytes are all safe returns before it consults
  \<^verbatim>\<open>_safe_quoters\<close>, so one call with one safe set can leave the cache with no entry.
\<close>

theorem cache_count_counterexample:
  "card (dom (safe_quoters (run_calls py_encode init_state
       [QuoteFromBytes (Bytes ''abc'') (SafeStr (ascii ''/''))])))
   \<noteq> card (set (map call_safe [QuoteFromBytes (Bytes ''abc'') (SafeStr (ascii ''/''))]))"
proof -
  have "call_key py_encode (QuoteFromBytes (Bytes ''abc'') (SafeStr (ascii ''/''))) = None"
    by (simp add: call_key_def lookup_key_Bytes effective_safe_def ALWAYS_SAFE_def)
  then have "dom (safe_quoters (run_calls py_encode init_state
       [QuoteFromBytes (Bytes ''abc'') (SafeStr (ascii ''/''))])) = {}"
    by (simp add: run_calls_dom List.map_filter_simps init_state_def)
  then show ?thesis by simp
qed

text \<open>
  C8, amended. No call of \<^verbatim>\<open>quote\<close> or \<^verbatim>\<open>quote_from_bytes\<close> removes or replaces an
  entry of the Quoter Cache: after any sequence of calls every entry is still there, with
  the same \<^verbatim>\<open>Quoter\<close> object, and the keys are the old ones and the normalised safe sets
  of the calls that consulted the cache (those given a byte outside the Effective Safe
  Set). Starting from an empty cache the number of entries is the number of these safe
  sets, whatever it is: \<^verbatim>\<open>MAX_CACHE_SIZE\<close> plays no part. Only \<^verbatim>\<open>clear_cache\<close> empties
  the cache.
\<close>

theorem cache_never_evicts:
  "safe_quoters s \<subseteq>\<^sub>m safe_quoters (run_calls enc s cs) \<and>
   dom (safe_quoters (run_calls enc s cs))
     = dom (safe_quoters s) \<union> set (List.map_filter (call_key enc) cs) \<and>
   (safe_quoters s = Map.empty \<longrightarrow>
      card (dom (safe_quoters (run_calls enc s cs))) = card (set (List.map_filter (call_key enc) cs))) \<and>
   safe_quoters (clear_cache s) = Map.empty"
  using run_calls_keeps [of s enc cs] run_calls_dom [of enc s cs]
  by (simp add: clear_cache_def)

theorem cache_never_evicts_witness:
  "safe_quoters init_state = Map.empty \<and>
   card (dom (safe_quoters (run_calls py_encode init_state
     (map (\<lambda>c. QuoteFromBytes (Bytes '' '') (SafeBytes [c])) ''!#$&()*+,/:;<=>?@[]^~'')))) = 21 \<and>
   MAX_CACHE_SIZE < 21"
proof -
  have e: "safe_quoters init_state = Map.empty"
    by (simp add: init_state_def)
  have k: "List.map_filter (call_key py_encode)
      (map (\<lambda>c. QuoteFromBytes (Bytes '' '') (SafeBytes [c])) ''!#$&()*+,/:;<=>?@[]^~'')
      = map (\<lambda>c. [c]) ''!#$&()*+,/:;<=>?@[]^~''"
    by (simp add: List.map_filter_simps call_key_def lookup_key_Bytes effective_safe_def
        normalize_safe_def ALWAYS_SAFE_def)
  have c: "card (set (map (\<lambda>c. [c]) ''!#$&()*+,/:;<=>?@[]^~'')) = 21"
    by simp
  from cache_never_evicts [of init_state py_encode
      "map (\<lambda>c. QuoteFromBytes (Bytes '' '') (SafeBytes [c])) ''!#$&()*+,/:;<=>?@[]^~''"] e
  have "card (dom (safe_quoters (run_calls py_encode init_state
     (map (\<lambda>c. QuoteFromBytes (Bytes '' '') (SafeBytes [c])) ''!#$&()*+,/:;<=>?@[]^~'')))) = 21"
    unfolding k c by blast
  with e show ?thesis by (simp add: MAX_CACHE_SIZE_def)
qed

subsection \<open>\<^verbatim>\<open>unquote\<close> and the segmenter\<close>

lemma utf8_decode_e_acute: "utf8_decode errors [CHR 0xC3, CHR 0xA9] = Inr [233]"
  by (simp add: utf8_decode_def lead_info_def)

lemma utf8_encode_e_acute: "utf8_encode errors [233] = Inr [CHR 0xC3, CHR 0xA9]"
  by (simp add: utf8_encode_cp_def char_of_eq_iff)

lemma decode_bit_e_acute: "decode_bit py_decode ''utf-8'' ''replace'' [233] = Inr [233]"
  unfolding decode_bit_def unquote_to_bytes_Str utf8_encode_e_acute
  by (simp add: unescape_def py_decode_def utf8_decode_e_acute)

lemma decode_bit_escape:
  "decode_bit py_decode ''utf-8'' ''replace'' (ascii ''%20'') = Inr (ascii '' '')"
  by (simp add: decode_bit_def unquote_to_bytes_Str utf8_encode_ascii unescape_def
      segment_decode_def hex_value_def py_decode_def utf8_decode_ascii char_of_eq_iff)
    (simp add: ascii_def)

text \<open>
  C1 does not hold of the code. \<^verbatim>\<open>unquote\<close> takes the elements of
  \<^verbatim>\<open>split_on_non_ascii\<close> at even positions for ASCII runs and those at odd positions
  for non-ASCII characters, but the list has no empty runs: when the input begins with a
  non-ASCII character (or has two of them side by side) an ASCII run lands on an odd
  position and is copied with its escapes. \<^verbatim>\<open>unquote\<close> of U+00E9 followed by
  \<^verbatim>\<open>%20\<close> is the input itself, although \<^verbatim>\<open>unquote("%20")\<close> is a space.
\<close>

theorem unquote_leading_non_ascii_keeps_escape:
  "unquote py_decode (Str (233 # ascii ''%20'')) None None = Inr (233 # ascii ''%20'') \<and>
   unquote py_decode (Str (ascii ''%20'')) None None = Inr (ascii '' '') \<and>
   split_on_non_ascii (233 # ascii ''%20'') = [[233], ascii ''%20'']"
proof -
  have sp: "split_on_non_ascii (233 # ascii ''%20'') = [[233], ascii ''%20'']"
    by (simp add: split_on_non_ascii_def ascii_def)
  have sp': "split_on_non_ascii (ascii ''%20'') = [ascii ''%20'']"
    by (simp add: split_on_non_ascii_def ascii_def)
  have m: "37 \<in> set (ascii ''%20'')"
    by (simp add: ascii_def)
  have u1: "unquote py_decode (Str (233 # ascii ''%20'')) None None = Inr (233 # ascii ''%20'')"
    using m by (simp add: unquote_def sp decode_bit_e_acute)
  have u2: "unquote py_decode (Str (ascii ''%20'')) None None = Inr (ascii '' '')"
    using m by (simp add: unquote_def sp' decode_bit_escape)
  from u1 u2 sp show ?thesis by blast
qed

end
